theory Spec2Isabelle
  imports Complex_Main "HOL-Library.Sublist"
begin

section \<open>Chunking: \<open>chunk_smart_duration\<close>\<close>

text \<open>
  A transcript segment, as the fetch library hands it over: \<open>seg.start\<close>,
  \<open>seg.duration\<close>, \<open>seg.text\<close>. Times are Python floats; the model is parametric
  in the number type \<open>'a\<close> and the functions use only \<open>0\<close>, \<open>+\<close>, \<open>-\<close>, \<open><\<close> and
  \<open>\<le>\<close> on it. A theorem that needs laws of arithmetic asks for them in the sort of
  \<open>'a\<close>; concrete runs are evaluated over \<open>real\<close>.
\<close>

record 'a segment =
  seg_start :: 'a
  seg_duration :: 'a
  seg_text :: string

text \<open>The dictionary appended to \<open>chunks\<close>; the key \<open>'segments'\<close> is the field \<open>segments\<close>.\<close>

record 'a chunk =
  chunk_id :: nat
  start :: 'a
  end_time :: 'a
  duration :: 'a
  text_of :: string
  segments :: nat

text \<open>\<open>" ".join(chunk_texts)\<close>\<close>

fun join_space :: "string list \<Rightarrow> string" where
  "join_space [] = []"
| "join_space [t] = t"
| "join_space (t # u # ts) = t @ '' '' @ join_space (u # ts)"

text \<open>
  The inner \<open>while i < len(segments)\<close> loop. The index \<open>i\<close> is the position of the
  first segment not yet consumed, so the loop runs over the list of remaining segments and
  returns the ones it leaves. The state is \<open>chunk_segments\<close>, \<open>chunk_texts\<close> and
  \<open>current_duration\<close>; the three branches are the source's, in its order.
\<close>

fun inner_loop ::
  "'a::{plus,ord} \<Rightarrow> 'a \<Rightarrow> 'a \<Rightarrow> 'a segment list \<Rightarrow> 'a segment list \<Rightarrow> string list \<Rightarrow> 'a
     \<Rightarrow> 'a segment list \<times> string list \<times> 'a \<times> 'a segment list" where
  "inner_loop target_duration min_duration max_duration [] chunk_segments chunk_texts current_duration =
     (chunk_segments, chunk_texts, current_duration, [])"
| "inner_loop target_duration min_duration max_duration (seg # rest) chunk_segments chunk_texts current_duration =
     (if chunk_segments = [] then
        inner_loop target_duration min_duration max_duration rest
          (chunk_segments @ [seg]) (chunk_texts @ [seg_text seg]) (current_duration + seg_duration seg)
      else if current_duration < min_duration then
        inner_loop target_duration min_duration max_duration rest
          (chunk_segments @ [seg]) (chunk_texts @ [seg_text seg]) (current_duration + seg_duration seg)
      else
        let new_duration = current_duration + seg_duration seg in
        if current_duration \<ge> target_duration \<or> new_duration > max_duration then
          (chunk_segments, chunk_texts, current_duration, seg # rest)
        else
          inner_loop target_duration min_duration max_duration rest
            (chunk_segments @ [seg]) (chunk_texts @ [seg_text seg]) (current_duration + seg_duration seg))"

text \<open>The record built when a chunk is closed (source lines 230 to 238).\<close>

definition close_chunk ::
  "nat \<Rightarrow> 'a::{plus,minus} \<Rightarrow> 'a segment list \<Rightarrow> string list \<Rightarrow> 'a chunk" where
  "close_chunk cid chunk_start chunk_segments chunk_texts =
     (let chunk_end = seg_start (last chunk_segments) + seg_duration (last chunk_segments)
      in \<lparr> chunk_id = cid,
           start = chunk_start,
           end_time = chunk_end,
           duration = chunk_end - chunk_start,
           text_of = join_space chunk_texts,
           segments = length chunk_segments \<rparr>)"

lemma inner_loop_rest_le:
  "inner_loop t mn mx segs cs ct cur = (cs', ct', cur', rest') \<Longrightarrow> length rest' \<le> length segs"
proof (induction segs arbitrary: cs ct cur)
  case Nil
  then show ?case by simp
next
  case (Cons seg rest)
  then show ?case
    by (fastforce simp: Let_def split: if_splits)
qed

text \<open>
  The outer \<open>while i < len(segments)\<close> loop. \<open>random.uniform(min_duration, max_duration)\<close>
  is the only thing the function reads besides its arguments: the randomness source is the
  sequence \<open>rnd\<close> of the values that successive calls return, \<open>rnd 0\<close> the next one. Each
  iteration draws one sample. Beside every chunk record the loop's own \<open>chunk_segments\<close>
  is kept, so that the constituent segments of a chunk can be named; the function returns
  the pairs and the randomness source as the draws left it.
\<close>

function outer_loop ::
  "(nat \<Rightarrow> 'a::{zero,plus,minus,ord}) \<Rightarrow> 'a \<Rightarrow> 'a \<Rightarrow> 'a segment list \<Rightarrow> nat
     \<Rightarrow> ('a chunk \<times> 'a segment list) list
     \<Rightarrow> ('a chunk \<times> 'a segment list) list \<times> (nat \<Rightarrow> 'a)" where
  "outer_loop rnd min_duration max_duration [] cid chunks = (chunks, rnd)"
| "outer_loop rnd min_duration max_duration (seg # rest) cid chunks =
     (let target_duration = rnd 0;
          chunk_start = seg_start seg
      in case inner_loop target_duration min_duration max_duration (seg # rest) [] [] 0 of
           (chunk_segments, chunk_texts, current_duration, rest') \<Rightarrow>
             if chunk_segments \<noteq> [] then
               outer_loop (rnd \<circ> Suc) min_duration max_duration rest' (Suc cid)
                 (chunks @ [(close_chunk cid chunk_start chunk_segments chunk_texts, chunk_segments)])
             else
               outer_loop (rnd \<circ> Suc) min_duration max_duration rest' cid chunks)"
  by pat_completeness auto
termination
  by (relation "measure (\<lambda>(rnd, mn, mx, segs, cid, chunks). length segs)")
     (auto dest!: inner_loop_rest_le [OF sym] simp: less_Suc_eq_le)

text \<open>
  \<open>chunk_trace\<close> is the run of the function from \<open>chunks = []\<close>, \<open>chunk_id = 0\<close>,
  \<open>i = 0\<close>, with each chunk's segments beside it; \<open>chunk_smart_duration\<close> is what the
  source returns, the chunk records alone. The early \<open>return []\<close> on an empty input is
  the first equation of \<open>outer_loop\<close>.
\<close>

definition chunk_trace ::
  "(nat \<Rightarrow> 'a::{zero,plus,minus,ord}) \<Rightarrow> 'a \<Rightarrow> 'a \<Rightarrow> 'a segment list
     \<Rightarrow> ('a chunk \<times> 'a segment list) list" where
  "chunk_trace rnd min_duration max_duration segs =
     fst (outer_loop rnd min_duration max_duration segs 0 [])"

definition chunk_smart_duration ::
  "(nat \<Rightarrow> 'a::{zero,plus,minus,ord}) \<Rightarrow> 'a \<Rightarrow> 'a \<Rightarrow> 'a segment list \<Rightarrow> 'a chunk list" where
  "chunk_smart_duration rnd min_duration max_duration segs =
     map fst (chunk_trace rnd min_duration max_duration segs)"

text \<open>
  \<open>current_duration\<close> after the segments \<open>segs\<close> have been admitted one by one: the
  left-to-right sum the loop computes, starting from \<open>0\<close>.
\<close>

definition accumulated :: "'a::{zero,plus} segment list \<Rightarrow> 'a" where
  "accumulated segs = foldl (\<lambda>cur seg. cur + seg_duration seg) 0 segs"

text \<open>
  The ceiling as the loop enforces it, in the loop's own comparisons: a chunk's
  accumulated duration is not above \<open>max_duration\<close> (the test \<open>new_duration > max_duration\<close>
  was false when its last segment was admitted), unless the chunk has one segment only
  or its last segment was admitted while the accumulated duration was still below
  \<open>min_duration\<close>. Nothing is assumed of the order or of the addition, so the property
  reads the same for floating-point numbers.
\<close>

definition within_ceiling :: "'a::{zero,plus,ord} \<Rightarrow> 'a \<Rightarrow> 'a segment list \<Rightarrow> bool" where
  "within_ceiling mn mx cs \<longleftrightarrow>
     \<not> mx < accumulated cs \<or> length cs = 1 \<or> accumulated (butlast cs) < mn"

text \<open>
  What a chunk record must say about the segments \<open>g\<close> merged into it, when it is the
  \<open>k\<close>-th chunk of the output (counting from 0).
\<close>

definition chunk_record_invariant :: "nat \<Rightarrow> 'a::{plus,minus} chunk \<Rightarrow> 'a segment list \<Rightarrow> bool" where
  "chunk_record_invariant k c g \<longleftrightarrow>
     chunk_id c = k \<and>
     g \<noteq> [] \<and>
     start c = seg_start (hd g) \<and>
     end_time c = seg_start (last g) + seg_duration (last g) \<and>
     duration c = end_time c - start c \<and>
     text_of c = join_space (map seg_text g) \<and>
     segments c = length g \<and>
     1 \<le> segments c"

text \<open>The transcript of the worked example: five segments \<open>a\<close> to \<open>e\<close>.\<close>

definition example_segments :: "real segment list" where
  "example_segments =
     [\<lparr>seg_start = 0, seg_duration = 10, seg_text = ''a''\<rparr>,
      \<lparr>seg_start = 10, seg_duration = 10, seg_text = ''b''\<rparr>,
      \<lparr>seg_start = 20, seg_duration = 5, seg_text = ''c''\<rparr>,
      \<lparr>seg_start = 25, seg_duration = 5, seg_text = ''d''\<rparr>,
      \<lparr>seg_start = 30, seg_duration = 10, seg_text = ''e''\<rparr>]"


text \<open>
  A transcript on which the floor rule passes the ceiling: three segments of 19, 15 and
  10 seconds, each starting where the previous one ends.
\<close>

definition overshoot_segments :: "real segment list" where
  "overshoot_segments =
     [\<lparr>seg_start = 0, seg_duration = 19, seg_text = ''a''\<rparr>,
      \<lparr>seg_start = 19, seg_duration = 15, seg_text = ''b''\<rparr>,
      \<lparr>seg_start = 34, seg_duration = 10, seg_text = ''c''\<rparr>]"

text \<open>
  The floor/ceiling property in the words of the specification, for a trace \<open>tr\<close>: every
  chunk but the last has a recorded duration of at least \<open>min_duration\<close> or is one
  oversized segment, and a recorded duration of at most \<open>max_duration\<close> or is one
  oversized segment.
\<close>

definition floor_ceiling_as_stated ::
  "'a::{zero,plus,minus,ord} \<Rightarrow> 'a \<Rightarrow> ('a chunk \<times> 'a segment list) list \<Rightarrow> bool" where
  "floor_ceiling_as_stated mn mx tr \<longleftrightarrow>
     (\<forall>k. Suc k < length tr \<longrightarrow>
        (duration (fst (tr ! k)) \<ge> mn \<or>
           (length (snd (tr ! k)) = 1 \<and> seg_duration (hd (snd (tr ! k))) > mx)) \<and>
        (duration (fst (tr ! k)) \<le> mx \<or>
           (length (snd (tr ! k)) = 1 \<and> seg_duration (hd (snd (tr ! k))) > mx)))"

section \<open>Completion state, downloads and the main loop\<close>

text \<open>The configuration constants the orchestrator reads.\<close>

definition OUTPUT_DIR :: string where "OUTPUT_DIR = ''bangla_transcripts''"
definition MIN_CHUNK_DURATION :: real where "MIN_CHUNK_DURATION = 20"
definition MAX_CHUNK_DURATION :: real where "MAX_CHUNK_DURATION = 30"
definition START_INDEX :: nat where "START_INDEX = 0"
definition BATCH_SIZE :: nat where "BATCH_SIZE = 50"
definition SAVE_EVERY :: nat where "SAVE_EVERY = 5"

definition progress_file :: string where
  "progress_file = OUTPUT_DIR @ ''/download_progress.json''"

text \<open>
  The progress file as the script finds it (source lines 149 to 152): absent; present but
  not JSON text, so that \<open>json.load\<close> raises (an empty or truncated file, which is what
  an interrupted save leaves, or any other text that does not parse); or present with the
  JSON value \<open>json.load\<close> returns. In an object a later duplicate of a key wins, as in
  the dictionary \<open>json.load\<close> builds. A number is kept as it is written.
\<close>

datatype json =
    JNull
  | JBool bool
  | JNumber string
  | JString string
  | JArray "json list"
  | JObject "(string \<times> json) list"

datatype progress_json = No_file | Not_json | Json json

text \<open>
  The exceptions the three lines can raise, none of which is caught: \<open>ValueError\<close> from
  \<open>json.load\<close> (\<open>JSONDecodeError\<close> and \<open>UnicodeDecodeError\<close> are both \<open>ValueError\<close>s),
  \<open>AttributeError\<close> from \<open>.get\<close> on a value that is not a dictionary, \<open>TypeError\<close> from
  \<open>set(...)\<close>.
\<close>

datatype py_error = ValueError | AttributeError | TypeError

text \<open>\<open>progress.get(key, dflt)\<close> on the dictionary of a JSON object.\<close>

definition dict_get :: "(string \<times> json) list \<Rightarrow> string \<Rightarrow> json \<Rightarrow> json" where
  "dict_get kvs key dflt = (case map_of (rev kvs) key of None \<Rightarrow> dflt | Some v \<Rightarrow> v)"

text \<open>
  \<open>set(value)\<close>. A list is turned into the set of its elements, which must be hashable:
  a list or a dictionary among them raises \<open>TypeError\<close>. A string gives the set of its
  characters, each a string of length one, and a dictionary the set of its keys. Nothing
  else is iterable. The completed set of the model holds the strings of the Python set:
  a log edited by hand may also list numbers, booleans or \<open>null\<close>, which \<open>set\<close> accepts,
  but an identifier is a string (\<open>astype(str)\<close> on line 144, the names \<open>os.listdir\<close>
  returns) and is never equal to one of those.
\<close>

fun hashable :: "json \<Rightarrow> bool" where
  "hashable (JArray xs) = False"
| "hashable (JObject kvs) = False"
| "hashable v = True"

fun string_members :: "json list \<Rightarrow> string list" where
  "string_members [] = []"
| "string_members (JString s # xs) = s # string_members xs"
| "string_members (x # xs) = string_members xs"

definition py_set :: "json \<Rightarrow> py_error + string set" where
  "py_set v =
     (case v of
        JArray xs \<Rightarrow> if list_all hashable xs then Inr (set (string_members xs)) else Inl TypeError
      | JString s \<Rightarrow> Inr (set (map (\<lambda>c. [c]) s))
      | JObject kvs \<Rightarrow> Inr (set (map fst kvs))
      | _ \<Rightarrow> Inl TypeError)"

text \<open>
  Lines 148 to 152: \<open>downloaded = set()\<close>, and when the progress file exists,
  \<open>progress = json.load(f)\<close> and \<open>downloaded = set(progress.get('completed', []))\<close>.
\<close>

definition load_progress :: "progress_json \<Rightarrow> py_error + string set" where
  "load_progress pf =
     (case pf of
        No_file \<Rightarrow> Inr {}
      | Not_json \<Rightarrow> Inl ValueError
      | Json progress \<Rightarrow>
          (case progress of
             JObject kvs \<Rightarrow> py_set (dict_get kvs ''completed'' (JArray []))
           | _ \<Rightarrow> Inl AttributeError))"

text \<open>
  The scan of the output directory: \<open>None\<close> when it does not exist, otherwise the
  entries \<open>os.listdir\<close> returns, each with the answer of \<open>os.path.isdir\<close>.
\<close>

definition existing_folders :: "(string \<times> bool) list option \<Rightarrow> string set" where
  "existing_folders listing =
     (case listing of
        None \<Rightarrow> {}
      | Some items \<Rightarrow> set (map fst (filter (\<lambda>(item, isdir). isdir \<and> item \<noteq> ''.git'') items)))"

text \<open>
  \<open>downloaded = downloaded.union(existing_folders)\<close> on line 163, reached only when the
  lines before it have not raised; then the work list and the batch window.
\<close>

definition downloaded_at_start ::
  "progress_json \<Rightarrow> (string \<times> bool) list option \<Rightarrow> py_error + string set" where
  "downloaded_at_start pf listing =
     (case load_progress pf of
        Inl e \<Rightarrow> Inl e
      | Inr downloaded0 \<Rightarrow> Inr (downloaded0 \<union> existing_folders listing))"

definition remaining_videos :: "string list \<Rightarrow> string set \<Rightarrow> string list" where
  "remaining_videos all_video_ids downloaded0 = filter (\<lambda>vid. vid \<notin> downloaded0) all_video_ids"

definition batch_videos :: "string list \<Rightarrow> string set \<Rightarrow> string list" where
  "batch_videos all_video_ids downloaded0 =
     take BATCH_SIZE (drop START_INDEX (remaining_videos all_video_ids downloaded0))"

text \<open>
  Writing the progress file: \<open>with open(progress_file, 'w') as f: json.dump(..., f)\<close>.
  Opening a file in mode \<open>'w'\<close> creates it or truncates it to length zero; \<open>json.dump\<close>
  then calls \<open>f.write\<close> once for each chunk of text the encoder yields. A file system
  is a map from paths to contents, and \<open>interrupted_after n\<close> is the file system when the
  process stops after \<open>n\<close> of the operations.
\<close>

datatype fs_op = Open_truncate string | Write_text string string

fun apply_fs_op :: "(string \<rightharpoonup> string) \<Rightarrow> fs_op \<Rightarrow> (string \<rightharpoonup> string)" where
  "apply_fs_op fs (Open_truncate path) = fs(path \<mapsto> [])"
| "apply_fs_op fs (Write_text path t) =
     fs(path \<mapsto> (case fs path of None \<Rightarrow> t | Some written \<Rightarrow> written @ t))"

definition save_progress_ops :: "string list \<Rightarrow> fs_op list" where
  "save_progress_ops json_chunks = Open_truncate progress_file # map (Write_text progress_file) json_chunks"

definition interrupted_after :: "nat \<Rightarrow> fs_op list \<Rightarrow> (string \<rightharpoonup> string) \<Rightarrow> (string \<rightharpoonup> string)" where
  "interrupted_after n ops fs = foldl apply_fs_op fs (take n ops)"

text \<open>
  The collaborators. \<open>fetch\<close> is \<open>api.fetch(video_id, languages=['bn'])\<close>: the segments, or
  \<open>Inl (str e)\<close> when it raises. \<open>store\<close> stands for the writes under the video's
  directory: \<open>Some (str e)\<close> when one of them raises. \<open>json_chunks\<close> is the text the JSON
  encoder yields for a completed set and a total (the order of \<open>list(downloaded)\<close> and the
  timestamp are its business).
\<close>

record world =
  fetch :: "string \<Rightarrow> string + real segment list"
  store :: "string \<Rightarrow> string option"
  json_chunks :: "string set \<Rightarrow> nat \<Rightarrow> string list"

datatype dl_result = Success nat | Failure string

text \<open>The \<open>except Exception as e\<close> branch of \<open>download_transcript_chunks\<close>.\<close>

definition on_exception :: "string \<Rightarrow> dl_result" where
  "on_exception error_msg =
     (if sublist ''429'' error_msg \<or> sublist ''Too Many Requests'' error_msg
      then Failure ''RateLimited''
      else Failure (take 100 error_msg))"

text \<open>
  \<open>download_transcript_chunks\<close>, with the randomness source passed through the chunking.
  The result dictionary is \<open>Success chunks\<close> or \<open>Failure error\<close>; the average duration
  it also carries is only printed and is left out.
\<close>

definition download_transcript_chunks ::
  "world \<Rightarrow> (nat \<Rightarrow> real) \<Rightarrow> string \<Rightarrow> dl_result \<times> (nat \<Rightarrow> real)" where
  "download_transcript_chunks w rnd video_id =
     (case fetch w video_id of
        Inl error_msg \<Rightarrow> (on_exception error_msg, rnd)
      | Inr segs \<Rightarrow>
          if segs = [] then (Failure ''No segments'', rnd)
          else
            (case outer_loop rnd MIN_CHUNK_DURATION MAX_CHUNK_DURATION segs 0 [] of
               (chunks, rnd') \<Rightarrow>
                 (case store w video_id of
                    Some error_msg \<Rightarrow> (on_exception error_msg, rnd')
                  | None \<Rightarrow> (Success (length chunks), rnd'))))"

text \<open>
  The state of the main loop: the variables \<open>downloaded\<close>, \<open>processed\<close> and
  \<open>rate_limited\<close>, the randomness source, the files, and the effects so far in order
  (calls of \<open>download_transcript_chunks\<close>, printed outcomes, progress saves, sleeps).
\<close>

datatype event =
    Download string
  | Print_success nat
  | Print_rate_limited
  | Print_error string
  | Save_progress "string set" nat
  | Sleep real

record run_state =
  downloaded :: "string set"
  processed :: nat
  rate_limited :: bool
  rnd_source :: "nat \<Rightarrow> real"
  files :: "string \<rightharpoonup> string"
  events :: "event list"

definition save_progress :: "world \<Rightarrow> nat \<Rightarrow> run_state \<Rightarrow> run_state" where
  "save_progress w total_videos s =
     s\<lparr> files := foldl apply_fs_op (files s) (save_progress_ops (json_chunks w (downloaded s) total_videos)),
        events := events s @ [Save_progress (downloaded s) total_videos] \<rparr>"

text \<open>
  The end of a loop iteration that did not break: \<open>processed += 1\<close>, the periodic save,
  and the sleep when another identifier follows (\<open>i < len(batch_videos) - 1\<close>).
\<close>

definition after_download :: "world \<Rightarrow> nat \<Rightarrow> bool \<Rightarrow> run_state \<Rightarrow> run_state" where
  "after_download w total_videos has_next s =
     (let s1 = s\<lparr> processed := processed s + 1 \<rparr>;
          s2 = (if processed s1 mod SAVE_EVERY = 0 then save_progress w total_videos s1 else s1)
      in if has_next
         then s2\<lparr> rnd_source := rnd_source s2 \<circ> Suc, events := events s2 @ [Sleep (rnd_source s2 0)] \<rparr>
         else s2)"

fun main_loop :: "world \<Rightarrow> nat \<Rightarrow> string list \<Rightarrow> run_state \<Rightarrow> run_state" where
  "main_loop w total_videos [] s = s"
| "main_loop w total_videos (video_id # rest) s =
     (case download_transcript_chunks w (rnd_source s) video_id of
        (result, rnd') \<Rightarrow>
          (let s1 = s\<lparr> rnd_source := rnd', events := events s @ [Download video_id] \<rparr> in
           case result of
             Success n \<Rightarrow>
               main_loop w total_videos rest
                 (after_download w total_videos (rest \<noteq> [])
                    (s1\<lparr> downloaded := insert video_id (downloaded s1),
                        events := events s1 @ [Print_success n] \<rparr>))
           | Failure err \<Rightarrow>
               if err = ''RateLimited''
               then s1\<lparr> rate_limited := True, events := events s1 @ [Print_rate_limited] \<rparr>
               else main_loop w total_videos rest
                      (after_download w total_videos (rest \<noteq> [])
                         (s1\<lparr> events := events s1 @ [Print_error err] \<rparr>))))"

text \<open>
  The whole script after the pull: the uncaught exception of the setup when the progress
  file cannot be loaded (\<open>Inl\<close>); \<open>exit(0)\<close> when the batch is empty (\<open>None\<close>);
  otherwise the loop and the final save. The push and the summary that follow only read
  the state.
\<close>

definition initial_state :: "string set \<Rightarrow> (nat \<Rightarrow> real) \<Rightarrow> (string \<rightharpoonup> string) \<Rightarrow> run_state" where
  "initial_state downloaded0 rnd fs =
     \<lparr> downloaded = downloaded0, processed = 0, rate_limited = False,
       rnd_source = rnd, files = fs, events = [] \<rparr>"

definition run ::
  "world \<Rightarrow> progress_json \<Rightarrow> (string \<times> bool) list option \<Rightarrow> string list \<Rightarrow> (nat \<Rightarrow> real)
     \<Rightarrow> (string \<rightharpoonup> string) \<Rightarrow> py_error + run_state option" where
  "run w pf listing all_video_ids rnd fs =
     (case downloaded_at_start pf listing of
        Inl e \<Rightarrow> Inl e
      | Inr downloaded0 \<Rightarrow>
          Inr (let batch = batch_videos all_video_ids downloaded0
               in if batch = [] then None
                  else Some (save_progress w (length all_video_ids)
                               (main_loop w (length all_video_ids) batch
                                  (initial_state downloaded0 rnd fs)))))"

fun attempted :: "event list \<Rightarrow> string list" where
  "attempted [] = []"
| "attempted (Download v # es) = v # attempted es"
| "attempted (e # es) = attempted es"

text \<open>
  The \<open>'error'\<close> entry of the result of a download, \<open>None\<close> when it succeeds. It does
  not depend on the randomness source (lemma \<open>download_cases\<close>), so it is read off at a
  fixed one. \<open>before_halt\<close> is the part of a batch in front of the first identifier
  whose download is reported as rate limited.
\<close>

definition download_error :: "world \<Rightarrow> string \<Rightarrow> string option" where
  "download_error w video_id =
     (case fst (download_transcript_chunks w (\<lambda>_. 0) video_id) of
        Success n \<Rightarrow> None
      | Failure err \<Rightarrow> Some err)"

fun errors_printed :: "event list \<Rightarrow> string list" where
  "errors_printed [] = []"
| "errors_printed (Print_error err # es) = err # errors_printed es"
| "errors_printed (e # es) = errors_printed es"

definition before_halt :: "world \<Rightarrow> string list \<Rightarrow> string list" where
  "before_halt w vs = takeWhile (\<lambda>v. download_error w v \<noteq> Some ''RateLimited'') vs"


text \<open>
  Union reconciliation in the words of the specification: whatever the persisted log,
  the start of the script yields a completed set, and the folders found in the output
  directory are in it.
\<close>

definition reconciles_as_stated :: "progress_json \<Rightarrow> (string \<times> bool) list option \<Rightarrow> bool" where
  "reconciles_as_stated pf listing \<longleftrightarrow>
     (case downloaded_at_start pf listing of
        Inl e \<Rightarrow> False
      | Inr completed \<Rightarrow> existing_folders listing \<subseteq> completed)"

text \<open>
  Checkpoint atomicity in the words of the specification: an interruption in the middle
  of a checkpoint write (after some but not all of its operations) leaves the progress
  file as it was. \<open>op_path\<close> is the file an operation touches.
\<close>

definition survives_interruption_as_stated :: "string list \<Rightarrow> (string \<rightharpoonup> string) \<Rightarrow> bool" where
  "survives_interruption_as_stated chunks fs \<longleftrightarrow>
     (\<forall>n. 0 < n \<and> n < length (save_progress_ops chunks) \<longrightarrow>
        interrupted_after n (save_progress_ops chunks) fs progress_file = fs progress_file)"

fun op_path :: "fs_op \<Rightarrow> string" where
  "op_path (Open_truncate path) = path"
| "op_path (Write_text path t) = path"

text \<open>
  The text of a failed download, \<open>None\<close> when the download succeeds: what \<open>str(e)\<close> is
  for an exception of the fetch (line 249) or of the writes (lines 257-281), and the
  fixed text of the early return on line 253 when the transcript has no segment.
\<close>

definition failure_text :: "world \<Rightarrow> string \<Rightarrow> string option" where
  "failure_text w video_id =
     (case fetch w video_id of
        Inl error_msg \<Rightarrow> Some error_msg
      | Inr segs \<Rightarrow> if segs = [] then Some ''No segments'' else store w video_id)"

text \<open>The test of line 287: the text holds \<open>"429"\<close> or \<open>"Too Many Requests"\<close>.\<close>

definition indicates_rate_limit :: "string \<Rightarrow> bool" where
  "indicates_rate_limit error_msg \<longleftrightarrow>
     sublist ''429'' error_msg \<or> sublist ''Too Many Requests'' error_msg"


text \<open>
  Collaborators for concrete runs: a transcript of one segment, ten identifiers, a fetch
  that fails with a too-many-requests text on the third of them, a fetch that returns no
  segment for the second, and a fetch that fails on the first with the text
  \<open>RateLimited\<close>, which holds neither indicator.
\<close>

definition one_segment :: "real segment list" where
  "one_segment = [\<lparr>seg_start = 0, seg_duration = 25, seg_text = ''x''\<rparr>]"

definition ten_videos :: "string list" where
  "ten_videos = [''v01'', ''v02'', ''v03'', ''v04'', ''v05'', ''v06'', ''v07'', ''v08'', ''v09'', ''v10'']"

definition third_rate_limited :: world where
  "third_rate_limited =
     \<lparr> fetch = (\<lambda>v. if v = ''v03'' then Inl ''HTTP Error 429: Too Many Requests'' else Inr one_segment),
       store = (\<lambda>v. None),
       json_chunks = (\<lambda>completed n. []) \<rparr>"



section \<open>Properties of the chunking loops\<close>

lemma accumulated_snoc: "accumulated (cs @ [seg]) = accumulated cs + seg_duration seg"
  by (simp add: accumulated_def)

lemma inner_loop_append:
  "inner_loop t mn mx segs cs ct cur = (cs', ct', cur', rest') \<Longrightarrow> cs' @ rest' = cs @ segs"
proof (induction segs arbitrary: cs ct cur)
  case Nil
  then show ?case by simp
next
  case (Cons seg rest)
  then show ?case
    by (fastforce simp: Let_def split: if_splits)
qed

lemma inner_loop_texts:
  "inner_loop t mn mx segs cs (map seg_text cs) cur = (cs', ct', cur', rest')
     \<Longrightarrow> ct' = map seg_text cs'"
proof (induction segs arbitrary: cs cur)
  case Nil
  then show ?case by auto
next
  case (Cons seg rest)
  then show ?case
    using Cons.IH [of "cs @ [seg]" "cur + seg_duration seg"]
    by (auto simp: Let_def split: if_splits)
qed

lemma inner_loop_accumulated:
  "inner_loop t mn mx segs cs ct (accumulated cs) = (cs', ct', cur', rest')
     \<Longrightarrow> cur' = accumulated cs'"
proof (induction segs arbitrary: cs ct)
  case Nil
  then show ?case by auto
next
  case (Cons seg rest)
  then show ?case
    using Cons.IH [of "cs @ [seg]" "ct @ [seg_text seg]"]
    by (auto simp: Let_def accumulated_snoc split: if_splits)
qed

lemma inner_loop_first:
  assumes "inner_loop t mn mx (seg # rest) [] ct cur = (cs', ct', cur', rest')"
  shows "cs' \<noteq> [] \<and> hd cs' = seg \<and> length rest' \<le> length rest"
proof -
  from assms have run: "inner_loop t mn mx rest [seg] (ct @ [seg_text seg]) (cur + seg_duration seg) = (cs', ct', cur', rest')"
    by simp
  from inner_loop_append [OF run] have "cs' @ rest' = seg # rest" by simp
  moreover from inner_loop_rest_le [OF run] have "length rest' \<le> length rest" .
  ultimately show ?thesis by (cases cs') auto
qed

lemma inner_loop_floor:
  "inner_loop t mn mx segs cs ct cur = (cs', ct', cur', rest') \<Longrightarrow> rest' \<noteq> []
     \<Longrightarrow> \<not> cur' < mn"
proof (induction segs arbitrary: cs ct cur)
  case Nil
  then show ?case by auto
next
  case (Cons seg rest)
  then show ?case
    by (fastforce simp: Let_def split: if_splits)
qed

lemma inner_loop_ceiling:
  fixes mn :: "'a::{zero,plus,ord}"
  shows "inner_loop t mn mx segs cs ct cur = (cs', ct', cur', rest') \<Longrightarrow> cur = accumulated cs
     \<Longrightarrow> cs = [] \<or> within_ceiling mn mx cs \<Longrightarrow> cs' = [] \<or> within_ceiling mn mx cs'"
proof (induction segs arbitrary: cs ct cur)
  case Nil
  then show ?case by auto
next
  case (Cons seg rest)
  show ?case
  proof (cases "cs = []")
    case True
    with Cons.prems have "inner_loop t mn mx rest [seg] (ct @ [seg_text seg]) (cur + seg_duration seg) = (cs', ct', cur', rest')"
      by simp
    moreover have "cur + seg_duration seg = accumulated [seg]"
      using Cons.prems True by (simp add: accumulated_def)
    moreover have "within_ceiling mn mx [seg]" by (simp add: within_ceiling_def)
    ultimately show ?thesis using Cons.IH by blast
  next
    case False
    show ?thesis
    proof (cases "cur < mn")
      case True
      with False Cons.prems have "inner_loop t mn mx rest (cs @ [seg]) (ct @ [seg_text seg]) (cur + seg_duration seg) = (cs', ct', cur', rest')"
        by simp
      moreover have "cur + seg_duration seg = accumulated (cs @ [seg])"
        using Cons.prems by (simp add: accumulated_snoc)
      moreover have "within_ceiling mn mx (cs @ [seg])"
        using True Cons.prems by (simp add: within_ceiling_def)
      ultimately show ?thesis using Cons.IH by blast
    next
      case nf: False
      show ?thesis
      proof (cases "t \<le> cur \<or> mx < cur + seg_duration seg")
        case True
        with False nf Cons.prems show ?thesis by (auto simp: Let_def)
      next
        case nb: False
        with False nf Cons.prems have "inner_loop t mn mx rest (cs @ [seg]) (ct @ [seg_text seg]) (cur + seg_duration seg) = (cs', ct', cur', rest')"
          by (simp add: Let_def)
        moreover have "cur + seg_duration seg = accumulated (cs @ [seg])"
          using Cons.prems by (simp add: accumulated_snoc)
        moreover have "within_ceiling mn mx (cs @ [seg])"
          using nb Cons.prems by (simp add: within_ceiling_def accumulated_snoc)
        ultimately show ?thesis using Cons.IH by blast
      qed
    qed
  qed
qed

lemma outer_loop_step:
  fixes rnd :: "nat \<Rightarrow> 'a::{zero,plus,minus,ord}"
  assumes "inner_loop (rnd 0) mn mx (seg # rest) [] [] 0 = (cs, ct, cur, rest')"
  shows "outer_loop rnd mn mx (seg # rest) cid chunks =
           outer_loop (rnd \<circ> Suc) mn mx rest' (Suc cid)
             (chunks @ [(close_chunk cid (seg_start seg) cs ct, cs)])"
    and "length rest' < length (seg # rest)"
proof -
  from inner_loop_first [OF assms] have ne: "cs \<noteq> []" and le: "length rest' \<le> length rest"
    by simp_all
  from assms ne show "outer_loop rnd mn mx (seg # rest) cid chunks =
           outer_loop (rnd \<circ> Suc) mn mx rest' (Suc cid)
             (chunks @ [(close_chunk cid (seg_start seg) cs ct, cs)])"
    by (simp del: inner_loop.simps)
  from le show "length rest' < length (seg # rest)" by simp
qed

lemma outer_loop_acc:
  fixes rnd :: "nat \<Rightarrow> 'a::{zero,plus,minus,ord}"
  shows "fst (outer_loop rnd mn mx segs cid chunks) = chunks @ fst (outer_loop rnd mn mx segs cid [])"
proof (induction "length segs" arbitrary: segs rnd cid chunks rule: less_induct)
  case less
  show ?case
  proof (cases segs)
    case Nil
    then show ?thesis by simp
  next
    case (Cons seg rest)
    obtain cs ct cur rest' where run: "inner_loop (rnd 0) mn mx (seg # rest) [] [] 0 = (cs, ct, cur, rest')"
      by (cases "inner_loop (rnd 0) mn mx (seg # rest) [] [] 0") auto
    note step = outer_loop_step [of rnd mn mx seg rest cs ct cur rest', OF run]
    let ?new = "(close_chunk cid (seg_start seg) cs ct, cs)"
    have shorter: "length rest' < length segs" using step(2) Cons by simp
    have "fst (outer_loop rnd mn mx segs cid chunks)
          = (chunks @ [?new]) @ fst (outer_loop (rnd \<circ> Suc) mn mx rest' (Suc cid) [])"
      unfolding Cons step(1) [of cid chunks]
      using less [OF shorter, of "rnd \<circ> Suc" "Suc cid" "chunks @ [?new]"] .
    moreover have "fst (outer_loop rnd mn mx segs cid [])
          = [?new] @ fst (outer_loop (rnd \<circ> Suc) mn mx rest' (Suc cid) [])"
      unfolding Cons step(1) [of cid "[]"]
      using less [OF shorter, of "rnd \<circ> Suc" "Suc cid" "[?new]"] by simp
    ultimately show ?thesis by simp
  qed
qed

text \<open>The trace from a given chunk id, unfolded one chunk at a time.\<close>

lemma trace_Cons:
  fixes rnd :: "nat \<Rightarrow> 'a::{zero,plus,minus,ord}"
  assumes "inner_loop (rnd 0) mn mx (seg # rest) [] [] 0 = (cs, ct, cur, rest')"
  shows "fst (outer_loop rnd mn mx (seg # rest) cid []) =
           (close_chunk cid (seg_start seg) cs ct, cs)
             # fst (outer_loop (rnd \<circ> Suc) mn mx rest' (Suc cid) [])"
  unfolding outer_loop_step(1) [of rnd mn mx seg rest cs ct cur rest' cid "[]", OF assms]
  using outer_loop_acc [of "rnd \<circ> Suc" mn mx rest' "Suc cid" "[(close_chunk cid (seg_start seg) cs ct, cs)]"]
  by simp

lemma trace_induct [case_names Nil Cons]:
  fixes rnd :: "nat \<Rightarrow> 'a::{zero,plus,minus,ord}"
  assumes "\<And>rnd cid. P rnd [] cid"
    and "\<And>rnd seg rest cid cs ct cur rest'.
           inner_loop (rnd 0) mn mx (seg # rest) [] [] 0 = (cs, ct, cur, rest') \<Longrightarrow>
           fst (outer_loop rnd mn mx (seg # rest) cid []) =
             (close_chunk cid (seg_start seg) cs ct, cs)
               # fst (outer_loop (rnd \<circ> Suc) mn mx rest' (Suc cid) []) \<Longrightarrow>
           P (rnd \<circ> Suc) rest' (Suc cid) \<Longrightarrow> P rnd (seg # rest) cid"
  shows "P rnd segs cid"
proof (induction "length segs" arbitrary: segs rnd cid rule: less_induct)
  case (less segs rnd cid)
  show ?case
  proof (cases segs)
    case Nil
    then show ?thesis using assms(1) by simp
  next
    case (Cons seg rest)
    obtain cs ct cur rest' where run: "inner_loop (rnd 0) mn mx (seg # rest) [] [] 0 = (cs, ct, cur, rest')"
      by (cases "inner_loop (rnd 0) mn mx (seg # rest) [] [] 0") auto
    have "length rest' < length segs"
      using outer_loop_step(2) [of rnd mn mx seg rest cs ct cur rest', OF run] Cons by simp
    then have "P (rnd \<circ> Suc) rest' (Suc cid)" by (rule less)
    then show ?thesis
      unfolding Cons
      using assms(2) [of rnd seg rest cs ct cur rest' cid] run
        trace_Cons [of rnd mn mx seg rest cs ct cur rest' cid, OF run]
      by blast
  qed
qed

lemma trace_concat:
  fixes rnd :: "nat \<Rightarrow> 'a::{zero,plus,minus,ord}"
  shows "concat (map snd (fst (outer_loop rnd mn mx segs cid []))) = segs"
proof (induction rnd segs cid rule: trace_induct [where mn = mn and mx = mx])
  case (Nil rnd cid)
  show ?case by simp
next
  case (Cons rnd seg rest cid cs ct cur rest')
  from inner_loop_append [OF Cons(1)] have "cs @ rest' = seg # rest" by simp
  with Cons(3) show ?case unfolding Cons(2) by (simp add: comp_def)
qed

lemma trace_counts:
  fixes rnd :: "nat \<Rightarrow> 'a::{zero,plus,minus,ord}"
  shows "map (segments \<circ> fst) (fst (outer_loop rnd mn mx segs cid [])) =
   map (length \<circ> snd) (fst (outer_loop rnd mn mx segs cid []))"
proof (induction rnd segs cid rule: trace_induct [where mn = mn and mx = mx])
  case (Nil rnd cid)
  show ?case by simp
next
  case (Cons rnd seg rest cid cs ct cur rest')
  then show ?case unfolding Cons(2) by (simp add: close_chunk_def Let_def comp_def)
qed


lemma accumulated_Nil [simp]: "accumulated [] = 0"
  by (simp add: accumulated_def)

lemma trace_records:
  fixes rnd :: "nat \<Rightarrow> 'a::{zero,plus,minus,ord}"
  shows "\<forall>k < length (fst (outer_loop rnd mn mx segs cid [])).
           chunk_record_invariant (cid + k)
             (fst (fst (outer_loop rnd mn mx segs cid []) ! k))
             (snd (fst (outer_loop rnd mn mx segs cid []) ! k))"
proof (induction rnd segs cid rule: trace_induct [where mn = mn and mx = mx])
  case (Nil rnd cid)
  show ?case by simp
next
  case (Cons rnd seg rest cid cs ct cur rest')
  from inner_loop_first [OF Cons(1)] have ne: "cs \<noteq> []" and hd: "hd cs = seg" by simp_all
  from inner_loop_texts [of "rnd 0" mn mx "seg # rest" "[]" 0 cs ct cur rest'] Cons(1)
  have ct: "ct = map seg_text cs" by simp
  have new: "chunk_record_invariant cid (close_chunk cid (seg_start seg) cs ct) cs"
    using ne hd ct by (cases cs) (simp_all add: chunk_record_invariant_def close_chunk_def Let_def)
  show ?case
  proof (intro allI impI)
    fix k
    assume k: "k < length (fst (outer_loop rnd mn mx (seg # rest) cid []))"
    show "chunk_record_invariant (cid + k)
             (fst (fst (outer_loop rnd mn mx (seg # rest) cid []) ! k))
             (snd (fst (outer_loop rnd mn mx (seg # rest) cid []) ! k))"
    proof (cases k)
      case 0
      with new show ?thesis unfolding Cons(2) by simp
    next
      case (Suc j)
      with k Cons(3) show ?thesis unfolding Cons(2) by (simp add: comp_def)
    qed
  qed
qed

lemma trace_deterministic:
  fixes rnd :: "nat \<Rightarrow> 'a::{zero,plus,minus,ord}"
  shows "\<forall>rnd'. (\<forall>k < length (fst (outer_loop rnd mn mx segs cid [])). rnd' k = rnd k) \<longrightarrow>
           fst (outer_loop rnd' mn mx segs cid []) = fst (outer_loop rnd mn mx segs cid [])"
proof (induction rnd segs cid rule: trace_induct [where mn = mn and mx = mx])
  case (Nil rnd cid)
  show ?case by simp
next
  case (Cons rnd seg rest cid cs ct cur rest')
  show ?case
  proof (intro allI impI)
    fix rnd' :: "nat \<Rightarrow> 'a"
    assume same: "\<forall>k < length (fst (outer_loop rnd mn mx (seg # rest) cid [])). rnd' k = rnd k"
    then have r0: "rnd' 0 = rnd 0" unfolding Cons(2) by simp
    have run': "inner_loop (rnd' 0) mn mx (seg # rest) [] [] 0 = (cs, ct, cur, rest')"
      unfolding r0 by (rule Cons(1))
    have "\<forall>k < length (fst (outer_loop (rnd \<circ> Suc) mn mx rest' (Suc cid) [])). (rnd' \<circ> Suc) k = (rnd \<circ> Suc) k"
      using same unfolding Cons(2) by auto
    with Cons(3) have "fst (outer_loop (rnd' \<circ> Suc) mn mx rest' (Suc cid) []) =
        fst (outer_loop (rnd \<circ> Suc) mn mx rest' (Suc cid) [])"
      by blast
    then show "fst (outer_loop rnd' mn mx (seg # rest) cid []) = fst (outer_loop rnd mn mx (seg # rest) cid [])"
      unfolding Cons(2) trace_Cons [of rnd' mn mx seg rest cs ct cur rest' cid, OF run'] by simp
  qed
qed

lemma example_trace:
  "rnd 0 = 22 \<Longrightarrow> chunk_trace rnd 20 30 example_segments =
     [(\<lparr>chunk_id = 0, start = 0, end_time = 25, duration = 25, text_of = ''a b c'', segments = 3\<rparr>,
        take 3 example_segments),
      (\<lparr>chunk_id = 1, start = 25, end_time = 40, duration = 15, text_of = ''d e'', segments = 2\<rparr>,
        drop 3 example_segments)]"
  by (simp add: chunk_trace_def example_segments_def close_chunk_def Let_def)

lemma trace_bounds:
  fixes rnd :: "nat \<Rightarrow> 'a::{zero,plus,minus,ord}"
  shows "\<forall>k < length (fst (outer_loop rnd mn mx segs cid [])).
           (Suc k < length (fst (outer_loop rnd mn mx segs cid [])) \<longrightarrow>
              \<not> accumulated (snd (fst (outer_loop rnd mn mx segs cid []) ! k)) < mn) \<and>
           within_ceiling mn mx (snd (fst (outer_loop rnd mn mx segs cid []) ! k))"
proof (induction rnd segs cid rule: trace_induct [where mn = mn and mx = mx])
  case (Nil rnd cid)
  show ?case by simp
next
  case (Cons rnd seg rest cid cs ct cur rest')
  let ?tl = "fst (outer_loop (rnd \<circ> Suc) mn mx rest' (Suc cid) [])"
  from inner_loop_first [OF Cons(1)] have ne: "cs \<noteq> []" by simp
  from inner_loop_accumulated [of "rnd 0" mn mx "seg # rest" "[]" "[]" cs ct cur rest'] Cons(1)
  have cur: "cur = accumulated cs" by simp
  from inner_loop_ceiling [OF Cons(1)] ne have ceil: "within_ceiling mn mx cs" by simp
  have floor: "\<not> accumulated cs < mn" if "?tl \<noteq> []"
  proof -
    from that have "rest' \<noteq> []" by (cases rest') auto
    from inner_loop_floor [OF Cons(1) this] cur show ?thesis by simp
  qed
  show ?case
  proof (intro allI impI)
    fix k
    assume k: "k < length (fst (outer_loop rnd mn mx (seg # rest) cid []))"
    show "(Suc k < length (fst (outer_loop rnd mn mx (seg # rest) cid [])) \<longrightarrow>
              \<not> accumulated (snd (fst (outer_loop rnd mn mx (seg # rest) cid []) ! k)) < mn) \<and>
           within_ceiling mn mx (snd (fst (outer_loop rnd mn mx (seg # rest) cid []) ! k))"
    proof (cases k)
      case 0
      with ceil floor show ?thesis unfolding Cons(2) by auto
    next
      case (Suc j)
      with k Cons(3) show ?thesis unfolding Cons(2) by (simp add: comp_def)
    qed
  qed
qed


lemma overshoot_trace:
  "chunk_trace (\<lambda>_. 25) 20 30 overshoot_segments =
     [(\<lparr>chunk_id = 0, start = 0, end_time = 34, duration = 34, text_of = ''a b'', segments = 2\<rparr>,
        take 2 overshoot_segments),
      (\<lparr>chunk_id = 1, start = 34, end_time = 44, duration = 10, text_of = ''c'', segments = 1\<rparr>,
        drop 2 overshoot_segments)]"
  by (simp add: chunk_trace_def overshoot_segments_def close_chunk_def Let_def)

section \<open>Properties of the main loop\<close>

lemma attempted_append: "attempted (xs @ ys) = attempted xs @ attempted ys"
  by (induction xs rule: attempted.induct) simp_all

lemma errors_printed_append: "errors_printed (xs @ ys) = errors_printed xs @ errors_printed ys"
  by (induction xs rule: errors_printed.induct) simp_all

lemma on_exception_Failure: "\<exists>err. on_exception msg = Failure err"
  by (simp add: on_exception_def)

lemma download_cases:
  "(download_error w v = None \<and> (\<exists>n r. download_transcript_chunks w rnd v = (Success n, r))) \<or>
   (\<exists>err r. download_error w v = Some err \<and> download_transcript_chunks w rnd v = (Failure err, r))"
  unfolding download_error_def download_transcript_chunks_def
  by (auto simp: on_exception_def split: sum.splits prod.splits option.splits)

lemma download_Success:
  assumes "download_error w v = None"
  obtains n r where "download_transcript_chunks w rnd v = (Success n, r)"
  using download_cases [of w v rnd] assms by auto

lemma download_Failure:
  assumes "download_error w v = Some err"
  obtains r where "download_transcript_chunks w rnd v = (Failure err, r)"
  using download_cases [of w v rnd] assms by auto

lemma after_download_fields:
  "downloaded (after_download w t m s) = downloaded s"
  "processed (after_download w t m s) = Suc (processed s)"
  "rate_limited (after_download w t m s) = rate_limited s"
  "attempted (events (after_download w t m s)) = attempted (events s)"
  "errors_printed (events (after_download w t m s)) = errors_printed (events s)"
  by (simp_all add: after_download_def save_progress_def Let_def attempted_append errors_printed_append)

lemma before_halt_Nil [simp]: "before_halt w [] = []"
  by (simp add: before_halt_def)

lemma before_halt_Cons:
  "before_halt w (v # vs) =
     (if download_error w v = Some ''RateLimited'' then [] else v # before_halt w vs)"
  by (simp add: before_halt_def)

lemma Collect_set_Cons:
  "{x \<in> set (v # B). P x} = (if P v then insert v {x \<in> set B. P x} else {x \<in> set B. P x})"
  by auto

lemma main_loop_run:
  "attempted (events (main_loop w t vs s)) =
     attempted (events s) @ take (Suc (length (before_halt w vs))) vs \<and>
   downloaded (main_loop w t vs s) =
     downloaded s \<union> {v \<in> set (before_halt w vs). download_error w v = None} \<and>
   rate_limited (main_loop w t vs s) =
     (rate_limited s \<or> length (before_halt w vs) < length vs) \<and>
   processed (main_loop w t vs s) = processed s + length (before_halt w vs) \<and>
   errors_printed (events (main_loop w t vs s)) =
     errors_printed (events s) @ List.map_filter (download_error w) (before_halt w vs)"
proof (induction vs arbitrary: s)
  case Nil
  show ?case by (simp add: List.map_filter_simps)
next
  case (Cons v vs)
  show ?case
  proof (cases "download_error w v")
    case None
    then obtain n r where dl: "download_transcript_chunks w (rnd_source s) v = (Success n, r)"
      by (rule download_Success)
    let ?s' = "after_download w t (vs \<noteq> [])
                 (s\<lparr>rnd_source := r, events := events s @ [Download v],
                     downloaded := insert v (downloaded s),
                     events := (events s @ [Download v]) @ [Print_success n]\<rparr>)"
    have step: "main_loop w t (v # vs) s = main_loop w t vs ?s'"
      using dl by (simp add: Let_def)
    have bh: "before_halt w (v # vs) = v # before_halt w vs"
      using None by (simp add: before_halt_Cons)
    have f: "attempted (events ?s') = attempted (events s) @ [v]"
      "downloaded ?s' = insert v (downloaded s)"
      "rate_limited ?s' = rate_limited s"
      "processed ?s' = Suc (processed s)"
      "errors_printed (events ?s') = errors_printed (events s)"
      by (simp_all add: after_download_fields attempted_append errors_printed_append)
    note ih = Cons.IH [of ?s', unfolded f, THEN conjunct2, THEN conjunct1]
      Cons.IH [of ?s', unfolded f]
    have 1: "attempted (events (main_loop w t vs ?s')) =
        attempted (events s) @ take (Suc (length (v # before_halt w vs))) (v # vs)"
      using ih(2) by simp
    have 2: "downloaded (main_loop w t vs ?s') =
        downloaded s \<union> {x \<in> set (v # before_halt w vs). download_error w x = None}"
      unfolding Collect_set_Cons using ih(1) None by simp
    have 3: "rate_limited (main_loop w t vs ?s') =
        (rate_limited s \<or> length (v # before_halt w vs) < length (v # vs))"
      using ih(2) by simp
    have 4: "processed (main_loop w t vs ?s') = processed s + length (v # before_halt w vs)"
      using ih(2) by simp
    have 5: "errors_printed (events (main_loop w t vs ?s')) =
        errors_printed (events s) @ List.map_filter (download_error w) (v # before_halt w vs)"
      using ih(2) None by (simp add: List.map_filter_simps)
    show ?thesis unfolding step bh using 1 2 3 4 5 by blast
  next
    case (Some err)
    then obtain r where dl: "download_transcript_chunks w (rnd_source s) v = (Failure err, r)"
      by (rule download_Failure)
    show ?thesis
    proof (cases "err = ''RateLimited''")
      case True
      have bh: "before_halt w (v # vs) = []"
        using Some True by (simp add: before_halt_Cons)
      have halt: "main_loop w t (v # vs) s =
          s\<lparr>rnd_source := r, events := events s @ [Download v], rate_limited := True,
            events := (events s @ [Download v]) @ [Print_rate_limited]\<rparr>"
        using dl True by (simp add: Let_def)
      show ?thesis unfolding halt bh
        by (simp add: attempted_append errors_printed_append List.map_filter_simps)
    next
      case False
      let ?s' = "after_download w t (vs \<noteq> [])
                 (s\<lparr>rnd_source := r, events := events s @ [Download v],
                     events := (events s @ [Download v]) @ [Print_error err]\<rparr>)"
      have step: "main_loop w t (v # vs) s = main_loop w t vs ?s'"
        using dl False by (simp add: Let_def)
      have bh: "before_halt w (v # vs) = v # before_halt w vs"
        using Some False by (simp add: before_halt_Cons)
      have f: "attempted (events ?s') = attempted (events s) @ [v]"
        "downloaded ?s' = downloaded s"
        "rate_limited ?s' = rate_limited s"
        "processed ?s' = Suc (processed s)"
        "errors_printed (events ?s') = errors_printed (events s) @ [err]"
        by (simp_all add: after_download_fields attempted_append errors_printed_append)
      note ih = Cons.IH [of ?s', unfolded f, THEN conjunct2, THEN conjunct1]
      Cons.IH [of ?s', unfolded f]
      have 1: "attempted (events (main_loop w t vs ?s')) =
          attempted (events s) @ take (Suc (length (v # before_halt w vs))) (v # vs)"
        using ih(2) by simp
      have 2: "downloaded (main_loop w t vs ?s') =
          downloaded s \<union> {x \<in> set (v # before_halt w vs). download_error w x = None}"
        unfolding Collect_set_Cons using ih(1) Some by simp
      have 3: "rate_limited (main_loop w t vs ?s') =
          (rate_limited s \<or> length (v # before_halt w vs) < length (v # vs))"
        using ih(2) by simp
      have 4: "processed (main_loop w t vs ?s') = processed s + length (v # before_halt w vs)"
        using ih(2) by simp
      have 5: "errors_printed (events (main_loop w t vs ?s')) =
          errors_printed (events s) @ List.map_filter (download_error w) (v # before_halt w vs)"
        using ih(2) Some by (simp add: List.map_filter_simps)
      show ?thesis unfolding step bh using 1 2 3 4 5 by blast
    qed
  qed
qed


section \<open>Properties of the setup and of checkpoint writes\<close>

lemma write_chunks:
  "foldl apply_fs_op (fs(path \<mapsto> written)) (map (Write_text path) cs) = fs(path \<mapsto> written @ concat cs)"
  by (induction cs arbitrary: written) simp_all

lemma apply_fs_op_elsewhere:
  "apply_fs_op fs op |` (- {op_path op}) = fs |` (- {op_path op})"
  by (cases op) (simp_all add: restrict_map_def fun_eq_iff)

lemma apply_fs_ops_elsewhere:
  "\<forall>op \<in> set ops. op_path op = path \<Longrightarrow> foldl apply_fs_op fs ops |` (- {path}) = fs |` (- {path})"
proof (induction ops arbitrary: fs)
  case Nil
  show ?case by simp
next
  case (Cons op ops)
  then have "foldl apply_fs_op (apply_fs_op fs op) ops |` (- {path}) = apply_fs_op fs op |` (- {path})"
    by simp
  moreover from Cons.prems have "apply_fs_op fs op |` (- {path}) = fs |` (- {path})"
    using apply_fs_op_elsewhere [of fs op] by simp
  ultimately show ?case by simp
qed

lemma save_progress_ops_paths: "\<forall>op \<in> set (take n (save_progress_ops cs)). op_path op = progress_file"
proof
  fix op assume "op \<in> set (take n (save_progress_ops cs))"
  then have "op \<in> set (save_progress_ops cs)" by (rule in_set_takeD)
  then show "op_path op = progress_file" by (auto simp: save_progress_ops_def)
qed

lemma interrupted_Suc:
  "interrupted_after (Suc n) (save_progress_ops cs) fs = fs(progress_file \<mapsto> concat (take n cs))"
  using write_chunks [of fs progress_file "[]" "take n cs"]
  by (simp add: interrupted_after_def save_progress_ops_def take_map)

lemma save_progress_files:
  "files (save_progress w t s) = (files s)(progress_file \<mapsto> concat (json_chunks w (downloaded s) t))"
  using write_chunks [of "files s" progress_file "[]" "json_chunks w (downloaded s) t"]
  by (simp add: save_progress_def save_progress_ops_def)

lemma string_members_strings: "string_members (map JString ids) = ids"
  by (induction ids) simp_all

lemma hashable_strings: "list_all hashable (map JString ids)"
  by (induction ids) simp_all

lemma batch_subset: "set (batch_videos all_ids d) \<subseteq> set all_ids - d"
proof -
  have "set (batch_videos all_ids d) \<subseteq> set (remaining_videos all_ids d)"
    unfolding batch_videos_def
    by (meson set_take_subset set_drop_subset subset_trans)
  then show ?thesis by (auto simp: remaining_videos_def)
qed

lemma batch_distinct: "distinct all_ids \<Longrightarrow> distinct (batch_videos all_ids d)"
  by (simp add: batch_videos_def remaining_videos_def)

lemma before_halt_take:
  assumes "k < length batch"
    and "\<forall>j<k. download_error w (batch ! j) \<noteq> Some ''RateLimited''"
    and "download_error w (batch ! k) = Some ''RateLimited''"
  shows "before_halt w batch = take k batch"
  unfolding before_halt_def
proof (rule takeWhile_eq_take_P_nth)
  fix i assume "i < k" "i < length batch"
  with assms(2) show "download_error w (batch ! i) \<noteq> Some ''RateLimited''" by blast
next
  assume "k < length batch"
  from assms(3) show "\<not> download_error w (batch ! k) \<noteq> Some ''RateLimited''" by simp
qed



lemma download_error_fetch_failed:
  assumes "fetch w v = Inl error_msg"
  shows "download_error w v =
    Some (if sublist ''429'' error_msg \<or> sublist ''Too Many Requests'' error_msg
          then ''RateLimited'' else take 100 error_msg)"
  unfolding download_error_def download_transcript_chunks_def on_exception_def
  by (simp add: assms)

lemma fetch_no_segments:
  assumes "fetch w v = Inr []"
  shows "download_error w v = Some ''No segments''"
  unfolding download_error_def download_transcript_chunks_def
  by (simp add: assms)

lemma download_error_stored:
  assumes "fetch w v = Inr segs" "segs \<noteq> []"
  shows "download_error w v =
    (case store w v of
       None \<Rightarrow> None
     | Some error_msg \<Rightarrow>
         Some (if sublist ''429'' error_msg \<or> sublist ''Too Many Requests'' error_msg
               then ''RateLimited'' else take 100 error_msg))"
proof -
  obtain tr r where run: "outer_loop (\<lambda>_. 0) MIN_CHUNK_DURATION MAX_CHUNK_DURATION segs 0 [] = (tr, r)"
    by (cases "outer_loop (\<lambda>_. 0 :: real) MIN_CHUNK_DURATION MAX_CHUNK_DURATION segs 0 []") auto
  show ?thesis
  proof (cases "store w v")
    case None
    with assms run show ?thesis
      unfolding download_error_def download_transcript_chunks_def by simp
  next
    case (Some error_msg)
    with assms run show ?thesis
      unfolding download_error_def download_transcript_chunks_def on_exception_def by simp
  qed
qed




subsection \<open>Failure texts and positions in the batch\<close>

lemma distinct_nth_not_in_take:
  assumes "distinct xs" "k < length xs"
  shows "xs ! k \<notin> set (take k xs)"
proof -
  from assms(2) have "xs = take k xs @ xs ! k # drop (Suc k) xs" by (rule id_take_nth_drop)
  with assms(1) have "distinct (take k xs @ xs ! k # drop (Suc k) xs)" by simp
  then show ?thesis by simp
qed


lemma download_error_failure_text:
  "download_error w v =
     (case failure_text w v of
        None \<Rightarrow> None
      | Some error_msg \<Rightarrow>
          Some (if fetch w v = Inr [] then ''No segments''
                else if indicates_rate_limit error_msg then ''RateLimited''
                else take 100 error_msg))"
proof (cases "fetch w v")
  case (Inl error_msg)
  then show ?thesis
    by (simp add: download_error_fetch_failed [OF Inl] failure_text_def indicates_rate_limit_def)
next
  case (Inr segs)
  show ?thesis
  proof (cases "segs = []")
    case True
    with Inr show ?thesis by (simp add: fetch_no_segments failure_text_def)
  next
    case False
    with Inr show ?thesis
      by (simp add: download_error_stored [OF Inr False] failure_text_def indicates_rate_limit_def
          split: option.splits)
  qed
qed

lemma rate_limit_reported:
  assumes "failure_text w v = Some error_msg" "indicates_rate_limit error_msg"
  shows "download_error w v = Some ''RateLimited''"
proof -
  have "fetch w v \<noteq> Inr []"
  proof
    assume "fetch w v = Inr []"
    with assms(1) have "error_msg = ''No segments''" by (simp add: failure_text_def)
    with assms(2) show False by (simp add: indicates_rate_limit_def sublist_code prefix_code)
  qed
  with assms show ?thesis by (simp add: download_error_failure_text)
qed

lemma download_error_one_segment:
  assumes "fetch w v = Inr one_segment" "store w v = None"
  shows "download_error w v = None"
proof -
  have "one_segment \<noteq> []" by (simp add: one_segment_def)
  from download_error_stored [OF assms(1) this] assms(2) show ?thesis by simp
qed

section \<open>Claims about \<open>chunk_smart_duration\<close>\<close>

text \<open>
  Claim C1 (partition). For every segment sequence, every pair of bounds and every
  randomness source, the segments of the chunks, concatenated in chunk order, are the
  input sequence: no segment is left out, repeated or split. The segment count recorded
  in each chunk is the number of segments of that chunk.
\<close>

theorem chunk_smart_duration_partition:
  fixes rnd :: "nat \<Rightarrow> 'a::{zero,plus,minus,ord}"
  shows "concat (map snd (chunk_trace rnd min_duration max_duration segs)) = segs \<and>
   map segments (chunk_smart_duration rnd min_duration max_duration segs) =
     map (length \<circ> snd) (chunk_trace rnd min_duration max_duration segs)"
  using trace_counts [of rnd min_duration max_duration segs 0]
  by (simp add: chunk_trace_def chunk_smart_duration_def trace_concat)

text \<open>
  Claim C8 (chunk record invariant). The function returns the chunk records of the trace,
  and the \<open>k\<close>-th record has \<open>chunk_id = k\<close>, \<open>start\<close> the start of its first segment,
  \<open>end\<close> the start plus the duration of its last segment, \<open>duration = end - start\<close>,
  \<open>text\<close> the segment texts joined by single spaces in order, and a segment count equal
  to the number of segments merged, which is at least one.
\<close>

theorem chunk_smart_duration_records:
  fixes rnd :: "nat \<Rightarrow> 'a::{zero,plus,minus,ord}"
  shows "chunk_smart_duration rnd mn mx segs = map fst (chunk_trace rnd mn mx segs) \<and>
    (\<forall>k < length (chunk_trace rnd mn mx segs).
       chunk_record_invariant k (fst (chunk_trace rnd mn mx segs ! k)) (snd (chunk_trace rnd mn mx segs ! k)))"
  using trace_records [of rnd mn mx segs 0]
  by (simp add: chunk_trace_def chunk_smart_duration_def)

theorem chunk_smart_duration_records_witness:
  "Suc 0 < length (chunk_trace (\<lambda>_. 22 :: real) 20 30 example_segments) \<and>
   chunk_record_invariant (Suc 0)
     (fst (chunk_trace (\<lambda>_. 22 :: real) 20 30 example_segments ! Suc 0))
     (snd (chunk_trace (\<lambda>_. 22 :: real) 20 30 example_segments ! Suc 0))"
proof -
  have len: "Suc 0 < length (chunk_trace (\<lambda>_. 22 :: real) 20 30 example_segments)"
    by (simp add: example_trace)
  with chunk_smart_duration_records [of "\<lambda>_. 22 :: real" 20 30 example_segments]
  show ?thesis by blast
qed

text \<open>
  Claim C9 (determinism). The result is a function of the segments, the bounds and the
  samples the randomness source yields: a second source that yields the same sample for
  every chunk the first run produces gives the same chunk list. Samples beyond those are
  never read.
\<close>

theorem chunk_smart_duration_deterministic:
  fixes rnd :: "nat \<Rightarrow> 'a::{zero,plus,minus,ord}"
  assumes "\<forall>k < length (chunk_smart_duration rnd mn mx segs). rnd' k = rnd k"
  shows "chunk_smart_duration rnd' mn mx segs = chunk_smart_duration rnd mn mx segs"
proof -
  from assms have "\<forall>k < length (fst (outer_loop rnd mn mx segs 0 [])). rnd' k = rnd k"
    unfolding chunk_smart_duration_def chunk_trace_def by simp
  with trace_deterministic [of rnd mn mx segs 0]
  have "fst (outer_loop rnd' mn mx segs 0 []) = fst (outer_loop rnd mn mx segs 0 [])"
    by blast
  then show ?thesis
    unfolding chunk_smart_duration_def chunk_trace_def by (rule arg_cong)
qed


theorem chunk_smart_duration_deterministic_witness:
  "length (chunk_smart_duration (\<lambda>_. 22 :: real) 20 30 example_segments) = 2 \<and>
   (if (0::nat) < 2 then 22 else 99 :: real) = 22 \<and>
   (if (1::nat) < 2 then 22 else 99 :: real) = 22 \<and>
   chunk_smart_duration (\<lambda>k. if k < 2 then 22 else 99 :: real) 20 30 example_segments =
     chunk_smart_duration (\<lambda>_. 22) 20 30 example_segments"
proof -
  have len: "length (chunk_smart_duration (\<lambda>_. 22 :: real) 20 30 example_segments) = 2"
    by (simp add: chunk_smart_duration_def example_trace)
  then have "\<forall>k < length (chunk_smart_duration (\<lambda>_. 22 :: real) 20 30 example_segments).
      (if k < 2 then 22 else 99 :: real) = 22"
    by simp
  from chunk_smart_duration_deterministic [OF this] len show ?thesis by simp
qed

text \<open>
  Claim C6 (worked example) as stated: with the target sample 22, the first chunk holds
  the segments \<open>a, b, c, d\<close> (30 seconds) and the second chunk starts at \<open>e\<close>. It
  fails: after \<open>a, b, c\<close> the accumulated duration is 25, which has reached the target
  22, so the loop stops before \<open>d\<close>.
\<close>

theorem worked_example_counterexample:
  "\<not> (snd (chunk_trace (\<lambda>_. 22 :: real) 20 30 example_segments ! 0) = take 4 example_segments \<and>
      duration (chunk_smart_duration (\<lambda>_. 22 :: real) 20 30 example_segments ! 0) = 30 \<and>
      start (chunk_smart_duration (\<lambda>_. 22 :: real) 20 30 example_segments ! 1) =
        seg_start (example_segments ! 4))"
proof -
  have "snd (chunk_trace (\<lambda>_. 22 :: real) 20 30 example_segments ! 0) = take 3 example_segments"
    by (simp add: example_trace)
  moreover have "take 3 example_segments \<noteq> take 4 example_segments"
    by (simp add: example_segments_def)
  ultimately show ?thesis by simp
qed

text \<open>
  Claim C6 as amended: whenever the first sample is 22, the first chunk holds the segments
  \<open>a, b, c\<close> (25 seconds, text \<open>a b c\<close>), the second chunk holds \<open>d, e\<close> and starts at
  \<open>d\<close> (time 25), and there is no third chunk.
\<close>

theorem worked_example:
  assumes "rnd 0 = 22"
  shows "map snd (chunk_trace rnd 20 30 example_segments) =
           [take 3 example_segments, drop 3 example_segments] \<and>
         chunk_smart_duration rnd 20 30 example_segments =
           [\<lparr>chunk_id = 0, start = 0, end_time = 25, duration = 25, text_of = ''a b c'', segments = 3\<rparr>,
            \<lparr>chunk_id = 1, start = 25, end_time = 40, duration = 15, text_of = ''d e'', segments = 2\<rparr>] \<and>
         start (chunk_smart_duration rnd 20 30 example_segments ! 1) = seg_start (example_segments ! 3)"
proof -
  note tr = example_trace [of rnd, OF assms]
  have "seg_start (example_segments ! 3) = 25"
    by (simp add: example_segments_def)
  then show ?thesis
    by (simp add: chunk_smart_duration_def tr)
qed

theorem worked_example_witness:
  "(\<lambda>n. if n = 0 then 22 else 27 :: real) 0 = 22 \<and>
   map snd (chunk_trace (\<lambda>n. if n = 0 then 22 else 27 :: real) 20 30 example_segments) =
     [take 3 example_segments, drop 3 example_segments]"
  using worked_example [of "\<lambda>n. if n = 0 then 22 else 27 :: real"] by simp

text \<open>
  Claim C2 (floor/ceiling) as stated fails. On the contiguous segments of 19, 15 and 10
  seconds with bounds 20 and 30, the second segment is admitted because the accumulated
  19 seconds are below the floor; the first chunk then has two segments and a recorded
  duration of 34 seconds, above the ceiling, and it is not the last chunk.
\<close>

theorem chunk_smart_duration_floor_ceiling_counterexample:
  "\<not> floor_ceiling_as_stated 20 30 (chunk_trace (\<lambda>_. 25 :: real) 20 30 overshoot_segments)"
proof
  assume "floor_ceiling_as_stated 20 30 (chunk_trace (\<lambda>_. 25 :: real) 20 30 overshoot_segments)"
  then have "duration (fst (chunk_trace (\<lambda>_. 25 :: real) 20 30 overshoot_segments ! 0)) \<le> 30 \<or>
     length (snd (chunk_trace (\<lambda>_. 25 :: real) 20 30 overshoot_segments ! 0)) = 1"
    unfolding floor_ceiling_as_stated_def by (simp add: overshoot_trace)
  then show False unfolding overshoot_trace by (simp add: overshoot_segments_def)
qed

text \<open>
  Claim C2 as amended. The duration the loop bounds is the accumulated duration, the sum
  of the chunk's segment durations as \<open>current_duration\<close> adds them up; the recorded
  \<open>duration\<close> field, \<open>end - start\<close>, is never compared with the bounds. For every number
  type, every segment sequence, all bounds and every randomness source, and for every
  chunk of the output: when the chunk is not the last, its accumulated duration is not
  below \<open>min_duration\<close>; and its accumulated duration is not above \<open>max_duration\<close>, or it
  has exactly one segment, or its segments before the last one accumulate to less than
  \<open>min_duration\<close> (the floor rule admitted the last one without looking at the ceiling).
  The comparisons are the loop's own \<open><\<close>, and no law of arithmetic or of the order is
  used, so the statement holds for the floating-point numbers of the program as it does
  for the reals.
\<close>

theorem chunk_smart_duration_floor_ceiling:
  fixes rnd :: "nat \<Rightarrow> 'a::{zero,plus,minus,ord}"
  shows "\<forall>k < length (chunk_trace rnd mn mx segs).
     (Suc k < length (chunk_trace rnd mn mx segs) \<longrightarrow>
        \<not> accumulated (snd (chunk_trace rnd mn mx segs ! k)) < mn) \<and>
     (\<not> mx < accumulated (snd (chunk_trace rnd mn mx segs ! k)) \<or>
        length (snd (chunk_trace rnd mn mx segs ! k)) = 1 \<or>
        accumulated (butlast (snd (chunk_trace rnd mn mx segs ! k))) < mn)"
proof (intro allI impI)
  fix k
  assume k: "k < length (chunk_trace rnd mn mx segs)"
  let ?g = "snd (chunk_trace rnd mn mx segs ! k)"
  from trace_bounds [of rnd mn mx segs 0] k
  have fl: "Suc k < length (chunk_trace rnd mn mx segs) \<longrightarrow> \<not> accumulated ?g < mn"
    and ce: "within_ceiling mn mx ?g"
    by (simp_all add: chunk_trace_def)
  from ce have "\<not> mx < accumulated ?g \<or> length ?g = 1 \<or> accumulated (butlast ?g) < mn"
    by (simp add: within_ceiling_def)
  with fl
  show "(Suc k < length (chunk_trace rnd mn mx segs) \<longrightarrow> \<not> accumulated ?g < mn) \<and>
     (\<not> mx < accumulated ?g \<or> length ?g = 1 \<or> accumulated (butlast ?g) < mn)"
    by blast
qed

theorem chunk_smart_duration_floor_ceiling_witness:
  "(0::nat) < length (chunk_trace (\<lambda>_. 25 :: real) 20 30 overshoot_segments) \<and>
   Suc 0 < length (chunk_trace (\<lambda>_. 25 :: real) 20 30 overshoot_segments) \<and>
   \<not> accumulated (snd (chunk_trace (\<lambda>_. 25 :: real) 20 30 overshoot_segments ! 0)) < 20 \<and>
   (30::real) < accumulated (snd (chunk_trace (\<lambda>_. 25 :: real) 20 30 overshoot_segments ! 0)) \<and>
   length (snd (chunk_trace (\<lambda>_. 25 :: real) 20 30 overshoot_segments ! 0)) = 2 \<and>
   accumulated (butlast (snd (chunk_trace (\<lambda>_. 25 :: real) 20 30 overshoot_segments ! 0))) < 20"
proof -
  have len: "(0::nat) < length (chunk_trace (\<lambda>_. 25 :: real) 20 30 overshoot_segments)"
    "Suc 0 < length (chunk_trace (\<lambda>_. 25 :: real) 20 30 overshoot_segments)"
    by (simp_all add: overshoot_trace)
  have over: "(30::real) < accumulated (snd (chunk_trace (\<lambda>_. 25 :: real) 20 30 overshoot_segments ! 0))"
    "length (snd (chunk_trace (\<lambda>_. 25 :: real) 20 30 overshoot_segments ! 0)) = 2"
    unfolding overshoot_trace by (simp_all add: overshoot_segments_def accumulated_def)
  from chunk_smart_duration_floor_ceiling [of "\<lambda>_. 25 :: real" 20 30 overshoot_segments] len over
  show ?thesis by auto
qed

section \<open>Claims about the completion state and the checkpoints\<close>

text \<open>
  Claim C4 (union reconciliation) as stated, for every persisted log, fails: when the
  progress file exists and is not JSON text, \<open>json.load\<close> raises on line 151, outside any
  \<open>try\<close>, and the union on line 163 is never computed. The folders \<open>b\<close> and \<open>c\<close> are in
  the output directory, and no completed set is produced in which they count.
\<close>

theorem union_reconciliation_counterexample:
  "\<not> reconciles_as_stated Not_json (Some [(''b'', True), (''c'', True)])"
  by (simp add: reconciles_as_stated_def downloaded_at_start_def load_progress_def)

text \<open>
  Claim C4 as amended. When the progress file loads (it is absent, or it is a JSON object
  whose \<open>'completed'\<close> entry, if any, is something \<open>set\<close> accepts), with \<open>logged\<close> the set
  loaded, the completed set at start is the union of \<open>logged\<close> and the folders found; an
  identifier of either source is never in the batch and is still in the completed set
  when the main loop ends. An absent file and an object without the key give the empty
  logged, a list of strings gives the set of them, and the logged \<open>{a}\<close> with the folders \<open>b\<close>
  and \<open>c\<close> gives \<open>{a, b, c}\<close>. When the file does not load, the script stops with the
  exception before the union: a file that is not JSON text raises \<open>ValueError\<close>, a JSON
  value that is not an object \<open>AttributeError\<close>, a \<open>'completed'\<close> entry such as \<open>null\<close>
  \<open>TypeError\<close>.
\<close>

theorem union_reconciliation:
  "(load_progress pf = Inr logged \<longrightarrow>
      downloaded_at_start pf listing = Inr (logged \<union> existing_folders listing) \<and>
      set (batch_videos all_video_ids (logged \<union> existing_folders listing)) \<inter>
        (logged \<union> existing_folders listing) = {} \<and>
      logged \<union> existing_folders listing \<subseteq>
        downloaded (main_loop w t (batch_videos all_video_ids (logged \<union> existing_folders listing))
                     (initial_state (logged \<union> existing_folders listing) rnd fs))) \<and>
   (load_progress pf = Inl e \<longrightarrow>
      downloaded_at_start pf listing = Inl e \<and> run w pf listing all_video_ids rnd fs = Inl e) \<and>
   load_progress No_file = Inr {} \<and>
   load_progress (Json (JObject [])) = Inr {} \<and>
   load_progress (Json (JObject [(''completed'', JArray (map JString ids))])) = Inr (set ids) \<and>
   downloaded_at_start (Json (JObject [(''completed'', JArray [JString ''a''])]))
     (Some [(''b'', True), (''c'', True)]) = Inr {''a'', ''b'', ''c''} \<and>
   load_progress Not_json = Inl ValueError \<and>
   load_progress (Json (JArray xs)) = Inl AttributeError \<and>
   load_progress (Json (JObject [(''completed'', JNull)])) = Inl TypeError"
proof -
  let ?d = "logged \<union> existing_folders listing"
  have 1: "load_progress pf = Inr logged \<longrightarrow> downloaded_at_start pf listing = Inr ?d"
    by (simp add: downloaded_at_start_def)
  have 2: "set (batch_videos all_video_ids ?d) \<inter> ?d = {}"
    using batch_subset [of all_video_ids ?d] by blast
  have 3: "?d \<subseteq> downloaded (main_loop w t (batch_videos all_video_ids ?d) (initial_state ?d rnd fs))"
    using main_loop_run [of w t "batch_videos all_video_ids ?d" "initial_state ?d rnd fs"]
    by (simp add: initial_state_def)
  have 4: "load_progress pf = Inl e \<longrightarrow>
      downloaded_at_start pf listing = Inl e \<and> run w pf listing all_video_ids rnd fs = Inl e"
    by (simp add: downloaded_at_start_def run_def)
  have 5: "load_progress No_file = Inr {}" "load_progress (Json (JObject [])) = Inr {}"
    by (simp_all add: load_progress_def dict_get_def py_set_def)
  have 6: "load_progress (Json (JObject [(''completed'', JArray (map JString ids))])) = Inr (set ids)"
    by (simp add: load_progress_def dict_get_def py_set_def string_members_strings hashable_strings)
  have 7: "downloaded_at_start (Json (JObject [(''completed'', JArray [JString ''a''])]))
     (Some [(''b'', True), (''c'', True)]) = Inr {''a'', ''b'', ''c''}"
    by (auto simp: downloaded_at_start_def load_progress_def dict_get_def py_set_def existing_folders_def)
  have 8: "load_progress Not_json = Inl ValueError"
    "load_progress (Json (JArray xs)) = Inl AttributeError"
    "load_progress (Json (JObject [(''completed'', JNull)])) = Inl TypeError"
    by (simp_all add: load_progress_def dict_get_def py_set_def)
  from 1 2 3 have 0: "load_progress pf = Inr logged \<longrightarrow>
      downloaded_at_start pf listing = Inr ?d \<and>
      set (batch_videos all_video_ids ?d) \<inter> ?d = {} \<and>
      ?d \<subseteq> downloaded (main_loop w t (batch_videos all_video_ids ?d) (initial_state ?d rnd fs))"
    by (intro impI conjI) (erule (1) mp, assumption+)
  from 0 4 5 6 7 8 show ?thesis by (intro conjI) assumption+
qed

theorem union_reconciliation_witness:
  "load_progress (Json (JObject [(''completed'', JArray [JString ''a''])])) = Inr {''a''} \<and>
   downloaded_at_start (Json (JObject [(''completed'', JArray [JString ''a''])]))
     (Some [(''b'', True), (''c'', True), (''notes.txt'', False)]) =
     Inr ({''a''} \<union> existing_folders (Some [(''b'', True), (''c'', True), (''notes.txt'', False)])) \<and>
   load_progress Not_json = Inl ValueError \<and>
   downloaded_at_start Not_json (Some [(''b'', True)]) = Inl ValueError"
proof -
  have good: "load_progress (Json (JObject [(''completed'', JArray [JString ''a''])])) = Inr {''a''}"
    by (simp add: load_progress_def dict_get_def py_set_def)
  have bad: "load_progress Not_json = Inl ValueError"
    by (simp add: load_progress_def)
  from union_reconciliation
      [of "Json (JObject [(''completed'', JArray [JString ''a''])])" "{''a''}"
          "Some [(''b'', True), (''c'', True), (''notes.txt'', False)]"]
    union_reconciliation [of Not_json _ "Some [(''b'', True)]" _ _ _ _ _ ValueError]
    good bad
  show ?thesis by simp
qed

text \<open>
  Claim C10 (folder scan). The folders added to the completed set are exactly the names
  of the entries of the output directory that are directories and are not named
  \<open>.git\<close>: plain files are ignored, \<open>.git\<close> is never one of them, and nothing is added
  when the directory does not exist.
\<close>

theorem existing_folders_exact:
  "existing_folders (Some items) = {item. (item, True) \<in> set items \<and> item \<noteq> ''.git''} \<and>
   existing_folders None = {} \<and>
   ''.git'' \<notin> existing_folders listing \<and>
   downloaded_at_start pf (Some items) =
     (case load_progress pf of
        Inl e \<Rightarrow> Inl e
      | Inr logged \<Rightarrow> Inr (logged \<union> {item. (item, True) \<in> set items \<and> item \<noteq> ''.git''}))"
proof -
  have 1: "existing_folders (Some items) = {item. (item, True) \<in> set items \<and> item \<noteq> ''.git''}"
    by (auto simp: existing_folders_def image_iff)
  have 2: "existing_folders None = {}"
    by (simp add: existing_folders_def)
  have 3: "''.git'' \<notin> existing_folders listing"
    by (cases listing) (auto simp: existing_folders_def)
  have 4: "downloaded_at_start pf (Some items) =
     (case load_progress pf of
        Inl e \<Rightarrow> Inl e
      | Inr logged \<Rightarrow> Inr (logged \<union> {item. (item, True) \<in> set items \<and> item \<noteq> ''.git''}))"
    unfolding downloaded_at_start_def 1 ..
  from 1 2 3 4 show ?thesis by blast
qed

text \<open>
  Claim C5 (checkpoint atomicity) as stated fails: a checkpoint write opens the progress
  file itself in mode \<open>'w'\<close>, so after its first operation the previous checkpoint is
  gone. Here the file holds a checkpoint and the process stops right after the open.
\<close>

theorem checkpoint_counterexample:
  "\<not> survives_interruption_as_stated [''{completed: [a, b]}''] [progress_file \<mapsto> ''{completed: [a]}'']"
proof
  assume "survives_interruption_as_stated [''{completed: [a, b]}''] [progress_file \<mapsto> ''{completed: [a]}'']"
  then have "interrupted_after 1 (save_progress_ops [''{completed: [a, b]}''])
      [progress_file \<mapsto> ''{completed: [a]}''] progress_file = [progress_file \<mapsto> ''{completed: [a]}''] progress_file"
    unfolding survives_interruption_as_stated_def by (simp add: save_progress_ops_def)
  then show False by (simp add: interrupted_after_def save_progress_ops_def)
qed

text \<open>
  Claim C5 as amended: a checkpoint write (the periodic one and the final one are the same
  \<open>save_progress\<close>) writes the progress file in place. Before its first operation the
  files are untouched; after the open and \<open>n\<close> of the writes the progress file holds
  the first \<open>n\<close> chunks of the new text and nothing of the previous checkpoint; no other
  file is written, so there is no temporary file and no replace step; a write that
  completes leaves the whole new text.
\<close>

theorem checkpoint_write_in_place:
  "interrupted_after 0 (save_progress_ops chunks) fs = fs \<and>
   interrupted_after (Suc n) (save_progress_ops chunks) fs progress_file = Some (concat (take n chunks)) \<and>
   interrupted_after n (save_progress_ops chunks) fs |` (- {progress_file}) = fs |` (- {progress_file}) \<and>
   files (save_progress w t s) = (files s)(progress_file \<mapsto> concat (json_chunks w (downloaded s) t)) \<and>
   dom (files (save_progress w t s)) = insert progress_file (dom (files s))"
proof -
  have 1: "interrupted_after 0 (save_progress_ops chunks) fs = fs"
    by (simp add: interrupted_after_def)
  have 2: "interrupted_after (Suc n) (save_progress_ops chunks) fs progress_file = Some (concat (take n chunks))"
    by (simp add: interrupted_Suc)
  have 3: "interrupted_after n (save_progress_ops chunks) fs |` (- {progress_file}) = fs |` (- {progress_file})"
    unfolding interrupted_after_def
    by (rule apply_fs_ops_elsewhere) (rule save_progress_ops_paths)
  have 4: "files (save_progress w t s) = (files s)(progress_file \<mapsto> concat (json_chunks w (downloaded s) t))"
    by (rule save_progress_files)
  have 5: "dom (files (save_progress w t s)) = insert progress_file (dom (files s))"
    unfolding 4 by simp
  from 1 2 3 4 5 show ?thesis by blast
qed


section \<open>Claims about the main loop\<close>

text \<open>
  Claim C3 (rate-limit halt). Let the batch be computed from a duplicate-free identifier
  list and the completed set at start, let no download before position \<open>k\<close> report
  \<open>RateLimited\<close>, and let the download at position \<open>k\<close> fail with a text that holds
  \<open>"429"\<close> or \<open>"Too Many Requests"\<close> (an exception of the fetch or of the writes). Then,
  for every total, randomness source and file system, the main loop ends with
  \<open>rate_limited\<close> set; the identifiers attempted are exactly the first \<open>k + 1\<close> of the
  batch, in order; \<open>processed\<close> is \<open>k\<close>; the completed set is the one at start together
  with the identifiers before position \<open>k\<close> whose download succeeded; the identifier at
  position \<open>k\<close> is not in it; no identifier after position \<open>k\<close> is attempted; and no
  identifier from position \<open>k\<close> on is in the completed set.
\<close>

theorem rate_limit_halt:
  assumes "distinct all_video_ids"
    and "batch = batch_videos all_video_ids downloaded0"
    and "k < length batch"
    and "\<forall>j<k. download_error w (batch ! j) \<noteq> Some ''RateLimited''"
    and "failure_text w (batch ! k) = Some error_msg"
    and "indicates_rate_limit error_msg"
  shows "let final = main_loop w t batch (initial_state downloaded0 rnd fs) in
     rate_limited final \<and>
     attempted (events final) = take (Suc k) batch \<and>
     processed final = k \<and>
     downloaded final = downloaded0 \<union> {v \<in> set (take k batch). download_error w v = None} \<and>
     batch ! k \<notin> downloaded final \<and>
     set (drop (Suc k) batch) \<inter> set (attempted (events final)) = {} \<and>
     set (drop k batch) \<inter> downloaded final = {}"
proof -
  let ?final = "main_loop w t batch (initial_state downloaded0 rnd fs)"
  have dist: "distinct batch" using assms(1,2) by (simp add: batch_distinct)
  have fresh: "set batch \<inter> downloaded0 = {}"
    using batch_subset [of all_video_ids downloaded0] assms(2) by blast
  have halts: "download_error w (batch ! k) = Some ''RateLimited''"
    using assms(5,6) by (rule rate_limit_reported)
  have bh: "before_halt w batch = take k batch"
    using assms(3,4) halts by (rule before_halt_take)
  have len: "length (take k batch) = k" using assms(3) by simp
  note run = main_loop_run [of w t batch "initial_state downloaded0 rnd fs", unfolded bh len]
  have 1: "rate_limited ?final" using run assms(3) by simp
  have 2: "attempted (events ?final) = take (Suc k) batch"
    using run by (simp add: initial_state_def)
  have 3: "processed ?final = k" using run by (simp add: initial_state_def)
  have 4: "downloaded ?final = downloaded0 \<union> {v \<in> set (take k batch). download_error w v = None}"
    using run by (simp add: initial_state_def)
  have kth: "batch ! k \<notin> set (take k batch)"
    using dist assms(3) by (rule distinct_nth_not_in_take)
  have kth0: "batch ! k \<notin> downloaded0" using fresh assms(3) by (meson disjoint_iff nth_mem)
  have 5: "batch ! k \<notin> downloaded ?final" unfolding 4 using kth kth0 by simp
  have 6: "set (drop (Suc k) batch) \<inter> set (attempted (events ?final)) = {}"
    unfolding 2 using set_take_disj_set_drop_if_distinct [OF dist, of "Suc k" "Suc k"] by blast
  have d0: "set (drop k batch) \<inter> downloaded0 = {}"
    using fresh set_drop_subset [of k batch] by blast
  have dk: "set (drop k batch) \<inter> set (take k batch) = {}"
    using set_take_disj_set_drop_if_distinct [OF dist, of k k] by blast
  have 7: "set (drop k batch) \<inter> downloaded ?final = {}"
    unfolding 4 using d0 dk by blast
  from 1 2 3 4 5 6 7 show ?thesis unfolding Let_def by (intro conjI) assumption+
qed

text \<open>
  The theorem at ten identifiers whose third fetch fails with
  \<open>HTTP Error 429: Too Many Requests\<close>: the first two are downloaded and marked, the third
  is attempted and halts the batch, the other seven are never attempted.
\<close>

theorem rate_limit_halt_witness:
  "rate_limited (main_loop third_rate_limited 10 ten_videos (initial_state {} (\<lambda>_. 0) Map.empty)) \<and>
   attempted (events (main_loop third_rate_limited 10 ten_videos (initial_state {} (\<lambda>_. 0) Map.empty))) =
     [''v01'', ''v02'', ''v03''] \<and>
   processed (main_loop third_rate_limited 10 ten_videos (initial_state {} (\<lambda>_. 0) Map.empty)) = 2 \<and>
   downloaded (main_loop third_rate_limited 10 ten_videos (initial_state {} (\<lambda>_. 0) Map.empty)) =
     {''v01'', ''v02''}"
proof -
  have ok: "\<And>v. v \<noteq> ''v03'' \<Longrightarrow> download_error third_rate_limited v = None"
    by (rule download_error_one_segment) (simp_all add: third_rate_limited_def)
  have h1: "distinct ten_videos" by (simp add: ten_videos_def)
  have h2: "ten_videos = batch_videos ten_videos {}"
    by (simp add: batch_videos_def remaining_videos_def START_INDEX_def BATCH_SIZE_def ten_videos_def)
  have h3: "2 < length ten_videos" by (simp add: ten_videos_def)
  have h4: "\<forall>j<2. download_error third_rate_limited (ten_videos ! j) \<noteq> Some ''RateLimited''"
    by (simp add: ten_videos_def ok less_Suc_eq numeral_2_eq_2)
  have h5: "failure_text third_rate_limited (ten_videos ! 2) = Some ''HTTP Error 429: Too Many Requests''"
    by (simp add: failure_text_def third_rate_limited_def ten_videos_def)
  have h6: "indicates_rate_limit ''HTTP Error 429: Too Many Requests''"
    by (simp add: indicates_rate_limit_def sublist_code prefix_code)
  have s: "{v \<in> set (take 2 ten_videos). download_error third_rate_limited v = None} = {''v01'', ''v02''}"
    by (auto simp: ten_videos_def ok)
  from rate_limit_halt [OF h1 h2 h3 h4 h5 h6, of 10 "\<lambda>_. 0" Map.empty] show ?thesis
    unfolding Let_def s by (simp add: ten_videos_def)
qed





end
